theory Spec2Isabelle
  imports Complex_Main
begin

section \<open>The chessboard demo: data model\<close>

text \<open>
  The development embeds the move-legality and board-state code of
  \<^verbatim>\<open>src/chessboard/main.py\<close>: the piece classes with their move tables, the board set up
  by \<^verbatim>\<open>ChessboardDemo.__init__\<close>, and the methods \<^verbatim>\<open>swapPieces\<close>, \<^verbatim>\<open>isPieceBetween\<close>,
  \<^verbatim>\<open>isVaidMove\<close> and \<^verbatim>\<open>releasePiece\<close>. Rendering calls (models, colours of squares,
  positions of scene nodes) are left out; every board access, division and attribute
  access that can raise is a branch of the model.
\<close>

text \<open>The exceptions the modelled code can raise.\<close>

datatype error = ZeroDivisionError | IndexError | AttributeError

text \<open>The five colour constants at the top of the file (distinct tuples).\<close>

datatype colour = BLACK | WHITE | HIGHLIGHT | VALID | PIECEBLACK

text \<open>The six subclasses of \<^verbatim>\<open>Piece\<close>, in the order they are declared.\<close>

datatype kind = Pawn | King | Queen | Bishop | Knight | Rook

text \<open>
  A piece object. \<^verbatim>\<open>moves\<close> and \<^verbatim>\<open>limit\<close> are class attributes, read through the instance
  (and \<^verbatim>\<open>moves\<close> is overwritten on the black pawns), so they are fields here.
  \<^verbatim>\<open>Piece.__init__\<close> does not store its \<^verbatim>\<open>square\<close> argument: the attribute \<^verbatim>\<open>square\<close> exists
  only once \<^verbatim>\<open>swapPieces\<close> has assigned it.
\<close>

record piece =
  kind :: kind
  moves :: "(int \<times> int) list"
  limit :: bool
  white :: bool
  square :: "int option"
  is_first_move :: bool

text \<open>
  The part of \<^verbatim>\<open>ChessboardDemo\<close> the legality code reads and writes: the 64 slots of
  \<^verbatim>\<open>self.pieces\<close>, \<^verbatim>\<open>self.hiSq\<close> and \<^verbatim>\<open>self.dragging\<close> (\<^verbatim>\<open>False\<close> is \<open>None\<close>, compared with
  \<^verbatim>\<open>is\<close>, so square 0 is a value of its own), the text of \<^verbatim>\<open>self.title\<close>, the texts of all
  \<^verbatim>\<open>OnscreenText\<close> objects created by \<^verbatim>\<open>swapPieces\<close> (newest first), and the pieces on
  which \<^verbatim>\<open>remove()\<close> was called (newest first).
\<close>

record demo =
  pieces :: "piece option list"
  hiSq :: "int option"
  dragging :: "int option"
  title :: string
  onscreen :: "string list"
  removed :: "piece list"

subsection \<open>Python primitives\<close>

definition bindE :: "error + 'a \<Rightarrow> ('a \<Rightarrow> error + 'b) \<Rightarrow> error + 'b" where
  "bindE r f = (case r of Inl e \<Rightarrow> Inl e | Inr v \<Rightarrow> f v)"

text \<open>
  List subscription \<^verbatim>\<open>xs[i]\<close>: indices from \<open>- len\<close> to \<open>len - 1\<close> are accepted, the
  negative ones counting from the end; anything else raises \<^verbatim>\<open>IndexError\<close>.
\<close>

definition pyIndex :: "'a list \<Rightarrow> int \<Rightarrow> error + nat" where
  "pyIndex xs i =
     (if 0 \<le> i \<and> i < int (length xs) then Inr (nat i)
      else if - int (length xs) \<le> i \<and> i < 0 then Inr (nat (int (length xs) + i))
      else Inl IndexError)"

definition pyGet :: "'a list \<Rightarrow> int \<Rightarrow> error + 'a" where
  "pyGet xs i = bindE (pyIndex xs i) (\<lambda>n. Inr (xs ! n))"

definition pySet :: "'a list \<Rightarrow> int \<Rightarrow> 'a \<Rightarrow> error + 'a list" where
  "pySet xs i v = bindE (pyIndex xs i) (\<lambda>n. Inr (xs[n := v]))"

text \<open>
  \<^verbatim>\<open>a % b\<close> and \<^verbatim>\<open>a // b\<close> on Python integers: floor division, the remainder has the
  sign of the divisor (as \<open>mod\<close> and \<open>div\<close> on \<open>int\<close>), and a zero divisor raises.
\<close>

definition pyMod :: "int \<Rightarrow> int \<Rightarrow> error + int" where
  "pyMod a b = (if b = 0 then Inl ZeroDivisionError else Inr (a mod b))"

definition pyFloorDiv :: "int \<Rightarrow> int \<Rightarrow> error + int" where
  "pyFloorDiv a b = (if b = 0 then Inl ZeroDivisionError else Inr (a div b))"

text \<open>
  \<^verbatim>\<open>a / b\<close> on Python integers is the correctly rounded double nearest to the exact
  quotient. The code only compares two such quotients for equality, and wherever it does,
  all four operands are at most 7 in absolute value when the two squares are on the board
  (each is a displacement, or a component equal to or dividing one: lemma
  \<open>multipleOf_bound\<close> below). Two distinct fractions with such operands differ by
  at least \<open>1 / 49\<close>, far more than the rounding error, so the doubles are equal exactly
  when the exact quotients are: the quotient is modelled as a rational number.
\<close>

definition pyTrueDiv :: "int \<Rightarrow> int \<Rightarrow> error + rat" where
  "pyTrueDiv a b = (if b = 0 then Inl ZeroDivisionError else Inr (of_int a / of_int b))"

subsection \<open>The piece classes\<close>

text \<open>The class attribute \<^verbatim>\<open>moves\<close> of each subclass.\<close>

fun classMoves :: "kind \<Rightarrow> (int \<times> int) list" where
  "classMoves Pawn = [(0,1),(1,1),(-1,1)]"
| "classMoves King = [(1,0),(0,1),(-1,0),(0,-1),(1,1),(-1,1),(1,-1),(-1,-1)]"
| "classMoves Queen = [(1,0),(0,1),(-1,0),(0,-1),(1,1),(-1,1),(1,-1),(-1,-1)]"
| "classMoves Bishop = [(1,1),(-1,1),(1,-1),(-1,-1)]"
| "classMoves Knight = [(-1,2),(-2,1),(-2,-1),(-1,-2),(1,-2),(2,-1),(2,1),(1,2)]"
| "classMoves Rook = [(1,0),(0,1),(-1,0),(0,-1)]"

text \<open>The class attribute \<^verbatim>\<open>limit\<close> of each subclass.\<close>

fun classLimit :: "kind \<Rightarrow> bool" where
  "classLimit Pawn = True"
| "classLimit King = True"
| "classLimit Queen = False"
| "classLimit Bishop = False"
| "classLimit Knight = True"
| "classLimit Rook = False"

text \<open>
  \<^verbatim>\<open>Piece.__init__(self, square, color)\<close> for an instance of subclass \<open>k\<close>: \<^verbatim>\<open>white\<close> is
  false exactly for \<^verbatim>\<open>PIECEBLACK\<close>, \<^verbatim>\<open>is_first_move\<close> starts \<^verbatim>\<open>False\<close>, and the argument
  \<^verbatim>\<open>square\<close> only positions the model.
\<close>

definition newPiece :: "kind \<Rightarrow> int \<Rightarrow> colour \<Rightarrow> piece" where
  "newPiece k sq color =
     \<lparr> kind = k, moves = classMoves k, limit = classLimit k,
       white = (if color = PIECEBLACK then False else True),
       square = None, is_first_move = False \<rparr>"

text \<open>\<^verbatim>\<open>pieceOrder\<close>, the back row from white's left to right.\<close>

definition pieceOrder :: "kind list" where
  "pieceOrder = [Rook, Knight, Bishop, Queen, King, Bishop, Knight, Rook]"

text \<open>
  The slots of \<^verbatim>\<open>self.pieces\<close> after the three set-up passes of \<^verbatim>\<open>__init__\<close>: white pawns on
  8..15, black pawns on 48..55 with \<^verbatim>\<open>moves\<close> overwritten, the back rows on 0..7 and 56..63,
  \<^verbatim>\<open>None\<close> elsewhere.
\<close>

definition initSlot :: "nat \<Rightarrow> piece option" where
  "initSlot i =
     (if 8 \<le> i \<and> i < 16 then Some (newPiece Pawn (int i) WHITE)
      else if 48 \<le> i \<and> i < 56 then
        Some ((newPiece Pawn (int i) PIECEBLACK)\<lparr> moves := [(0,-1),(1,-1),(-1,-1)] \<rparr>)
      else if i < 8 then Some (newPiece (pieceOrder ! i) (int i) WHITE)
      else if 56 \<le> i \<and> i < 64 then Some (newPiece (pieceOrder ! (i - 56)) (int i) PIECEBLACK)
      else None)"

definition initDemo :: demo where
  "initDemo = \<lparr> pieces = map initSlot [0..<64], hiSq = None, dragging = None,
                title = ''Panda3D: Chess'', onscreen = [], removed = [] \<rparr>"

section \<open>The legality engine\<close>

subsection \<open>\<^verbatim>\<open>isPieceBetween\<close>\<close>

text \<open>
  The \<^verbatim>\<open>while\<close> loop of \<^verbatim>\<open>isPieceBetween\<close>, with the loop variables \<^verbatim>\<open>currentPos\<close> and
  \<^verbatim>\<open>piece_NOT_between\<close> as arguments. The loop does not stop at the first occupied
  square. It need not terminate (a move with \<open>move[0] + move[1]*8 = 0\<close> never advances),
  so not returning is the value \<open>None\<close>.
\<close>

partial_function (option) isPieceBetween_while ::
  "piece option list \<Rightarrow> int \<times> int \<Rightarrow> int \<Rightarrow> int \<Rightarrow> bool \<Rightarrow> (error + bool) option" where
  "isPieceBetween_while pcs move currentPos targetPos piece_NOT_between =
     (if currentPos \<noteq> targetPos \<and> currentPos > -1 \<and> currentPos < 64 then
        (case pyGet pcs currentPos of
           Inl e \<Rightarrow> Some (Inl e)
         | Inr q \<Rightarrow>
             isPieceBetween_while pcs move (currentPos + (fst move + snd move * 8)) targetPos
               (if q \<noteq> None then False else piece_NOT_between))
      else Some (Inr piece_NOT_between))"

definition isPieceBetween ::
  "piece option list \<Rightarrow> int \<times> int \<Rightarrow> int \<Rightarrow> int \<Rightarrow> (error + bool) option" where
  "isPieceBetween pcs move currentPos targetPos =
     isPieceBetween_while pcs move (currentPos + (fst move + snd move * 8)) targetPos True"

subsection \<open>\<^verbatim>\<open>isVaidMove\<close>\<close>

text \<open>\<^verbatim>\<open>d % m == 0 and d // m > 0\<close>, evaluated left to right with short circuit.\<close>

definition multipleOf :: "int \<Rightarrow> int \<Rightarrow> error + bool" where
  "multipleOf d m =
     bindE (pyMod d m) (\<lambda>r. if r = 0 then bindE (pyFloorDiv d m) (\<lambda>q. Inr (q > 0)) else Inr False)"

text \<open>\<^verbatim>\<open>a / b == c / d\<close>.\<close>

definition sameQuotient :: "int \<Rightarrow> int \<Rightarrow> int \<Rightarrow> int \<Rightarrow> error + bool" where
  "sameQuotient a b c d =
     bindE (pyTrueDiv a b) (\<lambda>l. bindE (pyTrueDiv c d) (\<lambda>r. Inr (l = r)))"

text \<open>
  Lines 220 to 235: the \<^verbatim>\<open>if\<close>/\<^verbatim>\<open>elif\<close> cascade of one iteration of the loop over
  \<^verbatim>\<open>piece.moves\<close>. The result is the value of \<^verbatim>\<open>valid_move\<close> after it, given its value \<open>v\<close>
  before: the cascade only ever assigns \<^verbatim>\<open>True\<close>.
\<close>

definition moveTest :: "bool \<Rightarrow> int \<Rightarrow> int \<Rightarrow> int \<times> int \<Rightarrow> bool \<Rightarrow> error + bool" where
  "moveTest limited xDistance yDistance move v =
     (if xDistance = fst move then
        (if yDistance = snd move then Inr True
         else if limited = False \<and> snd move \<noteq> 0 \<and> yDistance \<noteq> 0 then
           bindE (multipleOf yDistance (snd move)) (\<lambda>b.
             if b then
               bindE (sameQuotient xDistance yDistance (fst move) (snd move)) (\<lambda>e.
                 if e then Inr True else Inr v)
             else Inr v)
         else Inr v)
      else if limited = False \<and> fst move \<noteq> 0 then
        bindE (multipleOf xDistance (fst move)) (\<lambda>b.
          if b then
            (if yDistance = snd move then
               bindE (sameQuotient yDistance xDistance (snd move) (fst move)) (\<lambda>e.
                 if e then Inr True else Inr v)
             else if snd move \<noteq> 0 \<and> yDistance \<noteq> 0 then
               bindE (multipleOf yDistance (snd move)) (\<lambda>b2.
                 if b2 then
                   bindE (sameQuotient xDistance yDistance (fst move) (snd move)) (\<lambda>e.
                     if e then Inr True else Inr v)
                 else Inr v)
             else Inr v)
          else Inr v)
      else Inr v)"

text \<open>
  The \<^verbatim>\<open>for move in piece.moves\<close> loop, on the moves still to visit, with \<^verbatim>\<open>valid_move\<close> as
  accumulator. After the cascade, a valid move of a piece whose \<^verbatim>\<open>limit\<close> is \<^verbatim>\<open>False\<close>
  (read from \<^verbatim>\<open>self.pieces[currentPos]\<close>, which raises \<^verbatim>\<open>AttributeError\<close> on an empty
  slot) is replaced by the result of \<^verbatim>\<open>isPieceBetween\<close> for this very move, and the loop
  is left (\<^verbatim>\<open>break\<close>).
\<close>

fun isVaidMove_for ::
  "piece option list \<Rightarrow> piece \<Rightarrow> int \<Rightarrow> int \<Rightarrow> int \<Rightarrow> int \<Rightarrow> (int \<times> int) list \<Rightarrow> bool
     \<Rightarrow> (error + bool) option" where
  "isVaidMove_for pcs p currentPos targetPos xDistance yDistance [] valid_move =
     Some (Inr valid_move)"
| "isVaidMove_for pcs p currentPos targetPos xDistance yDistance (move # rest) valid_move =
     (case moveTest (limit p) xDistance yDistance move valid_move of
        Inl e \<Rightarrow> Some (Inl e)
      | Inr v \<Rightarrow>
          if v = True then
            (case pyGet pcs currentPos of
               Inl e \<Rightarrow> Some (Inl e)
             | Inr None \<Rightarrow> Some (Inl AttributeError)
             | Inr (Some q) \<Rightarrow>
                 if limit q = False then isPieceBetween pcs move currentPos targetPos
                 else isVaidMove_for pcs p currentPos targetPos xDistance yDistance rest v)
          else isVaidMove_for pcs p currentPos targetPos xDistance yDistance rest v)"

text \<open>
  Lines 241 to 246: a target square holding a piece of the mover's side makes the move
  invalid, whatever the loop found.
\<close>

definition sameColourRule :: "piece option list \<Rightarrow> piece \<Rightarrow> int \<Rightarrow> bool \<Rightarrow> error + bool" where
  "sameColourRule pcs p targetPos valid_move =
     bindE (pyGet pcs targetPos) (\<lambda>t.
       case t of
         None \<Rightarrow> Inr valid_move
       | Some q \<Rightarrow> if white q = white p then Inr False else Inr valid_move)"

text \<open>
  \<^verbatim>\<open>isVaidMove(self, piece, currentPos, targetPos)\<close> for a piece object \<open>p\<close> (the callers
  pass \<^verbatim>\<open>self.pieces[self.dragging]\<close>; the case \<^verbatim>\<open>None\<close> is in \<open>releasePiece\<close>).
\<close>

definition isVaidMove :: "piece option list \<Rightarrow> piece \<Rightarrow> int \<Rightarrow> int \<Rightarrow> (error + bool) option" where
  "isVaidMove pcs p currentPos targetPos =
     (let xCurrent = currentPos mod 8;
          yCurrent = currentPos div 8;
          xTarget = targetPos mod 8;
          yTarget = targetPos div 8;
          xDistance = xTarget - xCurrent;
          yDistance = yTarget - yCurrent
      in case isVaidMove_for pcs p currentPos targetPos xDistance yDistance (moves p) False of
           None \<Rightarrow> None
         | Some (Inl e) \<Rightarrow> Some (Inl e)
         | Some (Inr valid_move) \<Rightarrow> Some (sameColourRule pcs p targetPos valid_move))"

section \<open>The move executor and the release transition\<close>

text \<open>
  \<^verbatim>\<open>swapPieces(self, fr, to)\<close>. The two slots are exchanged; a piece that arrives in slot
  \<^verbatim>\<open>fr\<close> from a different index \<^verbatim>\<open>to\<close> is the captured one: if its class is \<^verbatim>\<open>King\<close> the
  title becomes a new \<^verbatim>\<open>OnscreenText\<close> reading "Game over!", then \<^verbatim>\<open>remove()\<close> is called on
  it and the slot is cleared. Last, a piece in slot \<^verbatim>\<open>to\<close> gets \<^verbatim>\<open>square = to\<close>. The class
  test compares with the type of a throw-away \<^verbatim>\<open>King(-100, WHITE)\<close>, whose scene node is
  not part of the state. The slots
  hold the only references to the piece objects, so the assignment to the attribute is an
  update of the slot.
\<close>

definition swapPieces :: "demo \<Rightarrow> int \<Rightarrow> int \<Rightarrow> error + demo" where
  "swapPieces s fr to =
     bindE (pyGet (pieces s) fr) (\<lambda>temp.
     bindE (pyGet (pieces s) to) (\<lambda>other.
     bindE (pySet (pieces s) fr other) (\<lambda>ps1.
     bindE (pySet ps1 to temp) (\<lambda>ps2.
     bindE (pyGet ps2 fr) (\<lambda>atFr.
     bindE (case atFr of
              None \<Rightarrow> Inr (s\<lparr> pieces := ps2 \<rparr>)
            | Some c \<Rightarrow>
                if fr \<noteq> to then
                  bindE (pySet ps2 fr None) (\<lambda>ps3.
                    Inr ((if kind c = King
                          then s\<lparr> title := ''Game over!'', onscreen := ''Game over!'' # onscreen s \<rparr>
                          else s)
                         \<lparr> pieces := ps3, removed := c # removed s \<rparr>))
                else Inr (s\<lparr> pieces := ps2 \<rparr>)) (\<lambda>s1.
     bindE (pyGet (pieces s1) to) (\<lambda>atTo.
       case atTo of
         None \<Rightarrow> Inr s1
       | Some q \<Rightarrow>
           bindE (pySet (pieces s1) to (Some (q\<lparr> square := Some to \<rparr>))) (\<lambda>ps4.
             Inr (s1\<lparr> pieces := ps4 \<rparr>)))))))))"

text \<open>
  \<^verbatim>\<open>releasePiece(self)\<close>. With a drag active, the move is rejected when no square is
  highlighted or \<^verbatim>\<open>isVaidMove\<close> returns \<^verbatim>\<open>False\<close> (only the scene node of the piece is put
  back, which needs the slot to hold a piece); otherwise \<^verbatim>\<open>is_first_move\<close> of the dragged
  piece is assigned \<^verbatim>\<open>False\<close> and the pieces are swapped. In both cases, and without a
  drag, \<^verbatim>\<open>self.dragging\<close> ends as \<^verbatim>\<open>False\<close>. An empty slot under \<^verbatim>\<open>self.dragging\<close> makes the
  first attribute access on \<^verbatim>\<open>None\<close> raise.
\<close>

definition releasePiece :: "demo \<Rightarrow> (error + demo) option" where
  "releasePiece s =
     (case dragging s of
        None \<Rightarrow> Some (Inr (s\<lparr> dragging := None \<rparr>))
      | Some d \<Rightarrow>
          (case pyGet (pieces s) d of
             Inl e \<Rightarrow> Some (Inl e)
           | Inr None \<Rightarrow> Some (Inl AttributeError)
           | Inr (Some p) \<Rightarrow>
               (case hiSq s of
                  None \<Rightarrow> Some (Inr (s\<lparr> dragging := None \<rparr>))
                | Some h \<Rightarrow>
                    (case isVaidMove (pieces s) p d h of
                       None \<Rightarrow> None
                     | Some (Inl e) \<Rightarrow> Some (Inl e)
                     | Some (Inr valid) \<Rightarrow>
                         if valid = False then Some (Inr (s\<lparr> dragging := None \<rparr>))
                         else
                           Some (bindE (pySet (pieces s) d (Some (p\<lparr> is_first_move := False \<rparr>)))
                                   (\<lambda>ps. bindE (swapPieces (s\<lparr> pieces := ps \<rparr>) d h)
                                     (\<lambda>s'. Inr (s'\<lparr> dragging := None \<rparr>))))))))"

section \<open>Notions used by the properties\<close>

text \<open>
  The uniform rule in the words of the specification, for one vector: the displacement
  equals the vector, or the piece is ranged (its \<^verbatim>\<open>limit\<close> is \<^verbatim>\<open>False\<close>) and there is a
  positive integer \<open>k\<close> with \<open>dxTotal = k * dx\<close> and \<open>dyTotal = k * dy\<close>.
\<close>

definition positiveMultiple :: "bool \<Rightarrow> int \<times> int \<Rightarrow> int \<Rightarrow> int \<Rightarrow> bool" where
  "positiveMultiple limited vec dxTotal dyTotal \<longleftrightarrow>
     (dxTotal = fst vec \<and> dyTotal = snd vec) \<or>
     (limited = False \<and> (\<exists>k>0. dxTotal = k * fst vec \<and> dyTotal = k * snd vec))"

text \<open>The uniform rule for a move table: some vector of the table satisfies it.\<close>

definition uniformRule :: "(int \<times> int) list \<Rightarrow> bool \<Rightarrow> int \<Rightarrow> int \<Rightarrow> bool" where
  "uniformRule table limited dxTotal dyTotal \<longleftrightarrow>
     (\<exists>vec \<in> set table. positiveMultiple limited vec dxTotal dyTotal)"

text \<open>
  The vector-matching phase of \<^verbatim>\<open>isVaidMove\<close> accepts a displacement when the cascade of
  some iteration assigns \<^verbatim>\<open>True\<close> to a \<^verbatim>\<open>valid_move\<close> that was \<^verbatim>\<open>False\<close>.
\<close>

definition matchingAccepts :: "(int \<times> int) list \<Rightarrow> bool \<Rightarrow> int \<Rightarrow> int \<Rightarrow> bool" where
  "matchingAccepts table limited xDistance yDistance \<longleftrightarrow>
     list_ex (\<lambda>move. moveTest limited xDistance yDistance move False = Inr True) table"

text \<open>A board of 64 slots, empty but for piece \<open>p\<close> on square \<open>s\<close>.\<close>

definition emptyBut :: "int \<Rightarrow> piece \<Rightarrow> piece option list" where
  "emptyBut s p = (replicate 64 None)[nat s := Some p]"

text \<open>
  The move table a piece of class \<open>k\<close> and side \<open>w\<close> has once \<^verbatim>\<open>__init__\<close> is through: the
  class table, except on the black pawns.
\<close>

definition sideMoves :: "kind \<Rightarrow> bool \<Rightarrow> (int \<times> int) list" where
  "sideMoves k w = (if k = Pawn \<and> \<not> w then [(0,-1),(1,-1),(-1,-1)] else classMoves k)"

text \<open>All vectors of the six class tables (the black pawns' vectors are in the king's).\<close>

definition tableVectors :: "(int \<times> int) list" where
  "tableVectors = concat (map classMoves [Pawn, King, Queen, Bishop, Knight, Rook])"

section \<open>Auxiliary facts\<close>

subsection \<open>Python primitives and the cascade\<close>

lemma bindE_simps [simp]: "bindE (Inr v) f = f v" "bindE (Inl e) f = Inl e"
  by (simp_all add: bindE_def)

lemma pyGet_inrange: "0 \<le> i \<Longrightarrow> i < int (length xs) \<Longrightarrow> pyGet xs i = Inr (xs ! nat i)"
  by (simp add: pyGet_def pyIndex_def)

lemma pySet_inrange: "0 \<le> i \<Longrightarrow> i < int (length xs) \<Longrightarrow> pySet xs i v = Inr (xs[nat i := v])"
  by (simp add: pySet_def pyIndex_def)

lemma multiple_iff:
  fixes d m :: int
  assumes "m \<noteq> 0"
  shows "(d mod m = 0 \<and> d div m > 0) \<longleftrightarrow> (\<exists>k>0. d = k * m)"
proof
  assume h: "d mod m = 0 \<and> d div m > 0"
  then have "d = (d div m) * m" by auto
  with h show "\<exists>k>0. d = k * m" by blast
next
  assume "\<exists>k>0. d = k * m"
  then obtain k where "k > 0" "d = k * m" by blast
  with assms show "d mod m = 0 \<and> d div m > 0" by simp
qed

lemma multipleOf_eq: "m \<noteq> 0 \<Longrightarrow> multipleOf d m = Inr (\<exists>k>0. d = k * m)"
  using multiple_iff [of m d] by (auto simp: multipleOf_def pyMod_def pyFloorDiv_def)

lemma sameQuotient_eq: "b \<noteq> 0 \<Longrightarrow> d \<noteq> 0 \<Longrightarrow> sameQuotient a b c d = Inr (a * d = c * b)"
proof -
  assume h: "b \<noteq> 0" "d \<noteq> 0"
  have "((of_int a :: rat) / of_int b = of_int c / of_int d) \<longleftrightarrow> (of_int a * (of_int d :: rat) = of_int c * of_int b)"
    using h by (simp add: frac_eq_eq)
  also have "\<dots> \<longleftrightarrow> (of_int (a * d) = (of_int (c * b) :: rat))" by simp
  also have "\<dots> \<longleftrightarrow> a * d = c * b" by (simp only: of_int_eq_iff)
  finally show ?thesis using h by (simp add: sameQuotient_def pyTrueDiv_def)
qed

lemma pm_same_x:
  fixes a b yD :: int
  assumes "yD \<noteq> b"
  shows "(\<exists>k>0. a = k * a \<and> yD = k * b) \<longleftrightarrow> ((\<exists>k>0. yD = k * b) \<and> a * b = a * yD)"
proof
  assume "\<exists>k>0. a = k * a \<and> yD = k * b"
  then obtain k where k: "k > 0" "a = k * a" "yD = k * b" by blast
  from assms k have "k \<noteq> 1" by auto
  with k(2) have "a = 0" by simp
  with k show "(\<exists>k>0. yD = k * b) \<and> a * b = a * yD" by auto
next
  assume h: "(\<exists>k>0. yD = k * b) \<and> a * b = a * yD"
  then obtain k where k: "k > 0" "yD = k * b" by blast
  from h assms have "a = 0" by auto
  with k show "\<exists>k>0. a = k * a \<and> yD = k * b" by auto
qed

lemma pm_both:
  fixes a b xD yD :: int
  assumes "a \<noteq> 0" "b \<noteq> 0"
  shows "(\<exists>k>0. xD = k * a \<and> yD = k * b) \<longleftrightarrow>
         ((\<exists>k>0. xD = k * a) \<and> (\<exists>k>0. yD = k * b) \<and> xD * b = a * yD)"
proof
  assume "\<exists>k>0. xD = k * a \<and> yD = k * b"
  then obtain k where k: "k > 0" "xD = k * a" "yD = k * b" by blast
  then show "(\<exists>k>0. xD = k * a) \<and> (\<exists>k>0. yD = k * b) \<and> xD * b = a * yD"
    by (auto simp: mult.commute mult.left_commute)
next
  assume h: "(\<exists>k>0. xD = k * a) \<and> (\<exists>k>0. yD = k * b) \<and> xD * b = a * yD"
  then obtain k j where k: "k > 0" "xD = k * a" and j: "j > 0" "yD = j * b" by blast
  from h k j have "(k * a) * b = a * (j * b)" by simp
  then have "k * (a * b) = j * (a * b)" by (simp add: mult.commute mult.left_commute)
  with assms have "k = j" by simp
  with k j show "\<exists>k>0. xD = k * a \<and> yD = k * b" by blast
qed

lemma moveTest_eq: "moveTest lm xD yD m v = Inr (v \<or> positiveMultiple lm m xD yD)"
proof (cases m)
  case (Pair a b)
  show ?thesis
  proof (cases "xD = a")
    case True
    show ?thesis
    proof (cases "yD = b")
      case True
      with \<open>xD = a\<close> Pair show ?thesis by (simp add: moveTest_def positiveMultiple_def)
    next
      case False
      show ?thesis
      proof (cases "lm = False \<and> b \<noteq> 0 \<and> yD \<noteq> 0")
        case True
        with False \<open>xD = a\<close> Pair pm_same_x [OF False, of a] show ?thesis
          by (auto simp: moveTest_def positiveMultiple_def multipleOf_eq sameQuotient_eq)
      next
        case c: False
        have "\<not> (lm = False \<and> (\<exists>k>0. a = k * a \<and> yD = k * b))"
          using c False by auto
        with c False \<open>xD = a\<close> Pair show ?thesis
          by (auto simp: moveTest_def positiveMultiple_def)
      qed
    qed
  next
    case nx: False
    show ?thesis
    proof (cases "lm = False \<and> a \<noteq> 0")
      case ranged: True
      show ?thesis
      proof (cases "\<exists>k>0. xD = k * a")
        case mx: True
        then have x0: "xD \<noteq> 0" using ranged by auto
        show ?thesis
        proof (cases "yD = b")
          case True
          with nx ranged mx x0 Pair pm_same_x [OF nx, of b] show ?thesis
            by (auto simp: moveTest_def positiveMultiple_def multipleOf_eq sameQuotient_eq
                  mult.commute)
        next
          case ny: False
          show ?thesis
          proof (cases "b \<noteq> 0 \<and> yD \<noteq> 0")
            case True
            with nx ny ranged mx Pair pm_both [of a b xD yD] show ?thesis
              by (auto simp: moveTest_def positiveMultiple_def multipleOf_eq sameQuotient_eq)
          next
            case c: False
            have "\<not> (\<exists>k>0. xD = k * a \<and> yD = k * b)" using c ny by auto
            with c nx ny ranged mx Pair show ?thesis
              by (auto simp: moveTest_def positiveMultiple_def multipleOf_eq)
          qed
        qed
      next
        case False
        with nx ranged Pair show ?thesis
          by (auto simp: moveTest_def positiveMultiple_def multipleOf_eq)
      qed
    next
      case c: False
      have "\<not> (lm = False \<and> (\<exists>k>0. xD = k * a \<and> yD = k * b))" using c nx by auto
      with c nx Pair show ?thesis
        by (auto simp: moveTest_def positiveMultiple_def)
    qed
  qed
qed

subsection \<open>The obstruction scan\<close>

lemma while_exit:
  "\<not> (cur \<noteq> tgt \<and> cur > -1 \<and> cur < 64) \<Longrightarrow> isPieceBetween_while pcs m cur tgt nb = Some (Inr nb)"
  by (subst isPieceBetween_while.simps) auto

lemma while_step:
  "cur \<noteq> tgt \<Longrightarrow> 0 \<le> cur \<Longrightarrow> cur < 64 \<Longrightarrow> length pcs = 64 \<Longrightarrow>
   isPieceBetween_while pcs m cur tgt nb =
   isPieceBetween_while pcs m (cur + (fst m + snd m * 8)) tgt (nb \<and> pcs ! nat cur = None)"
  by (subst isPieceBetween_while.simps) (auto simp: pyGet_inrange)

lemma while_run:
  assumes len: "length pcs = 64" and st: "fst m + snd m * 8 \<noteq> 0"
  shows "(\<forall>i\<in>{1..j}. 0 \<le> tgt - int i * (fst m + snd m * 8) \<and> tgt - int i * (fst m + snd m * 8) < 64) \<Longrightarrow>
     isPieceBetween_while pcs m (tgt - int j * (fst m + snd m * 8)) tgt nb =
     Some (Inr (nb \<and> (\<forall>i\<in>{1..j}. pcs ! nat (tgt - int i * (fst m + snd m * 8)) = None)))"
proof (induction j arbitrary: nb)
  case 0
  then show ?case by (simp add: while_exit)
next
  case (Suc j)
  let ?st = "fst m + snd m * 8"
  let ?cur = "tgt - int (Suc j) * ?st"
  have "Suc j \<in> {1..Suc j}" by simp
  from bspec [OF Suc.prems this] have rng: "0 \<le> ?cur" "?cur < 64" by blast+
  have ne: "?cur \<noteq> tgt" using st by simp
  have nxt: "?cur + ?st = tgt - int j * ?st" by (simp add: algebra_simps)
  have prem: "\<forall>i\<in>{1..j}. 0 \<le> tgt - int i * ?st \<and> tgt - int i * ?st < 64"
    using Suc.prems by auto
  have split: "\<And>P. (\<forall>i\<in>{1..Suc j}. P i) \<longleftrightarrow> (P (Suc j) \<and> (\<forall>i\<in>{1..j}. P i))"
  proof -
    fix P
    have "{1..Suc j} = insert (Suc j) {1..j}" by auto
    then show "(\<forall>i\<in>{1..Suc j}. P i) \<longleftrightarrow> (P (Suc j) \<and> (\<forall>i\<in>{1..j}. P i))" by simp
  qed
  show ?case
    unfolding while_step [OF ne rng len] nxt Suc.IH [OF prem] split [of "\<lambda>i. pcs ! nat (tgt - int i * ?st) = None"]
    by auto
qed

lemma while_total_up:
  assumes len: "length pcs = 64" and st: "fst m + snd m * 8 > 0"
  shows "nat (64 - cur) \<le> n \<Longrightarrow> \<exists>b. isPieceBetween_while pcs m cur tgt nb = Some (Inr b)"
proof (induction n arbitrary: cur nb)
  case 0
  then show ?case by (simp add: while_exit)
next
  case (Suc n)
  show ?case
  proof (cases "cur \<noteq> tgt \<and> cur > -1 \<and> cur < 64")
    case True
    then have "nat (64 - (cur + (fst m + snd m * 8))) \<le> n" using Suc.prems st by linarith
    from Suc.IH [OF this] True len show ?thesis by (simp add: while_step)
  next
    case False
    then show ?thesis by (simp add: while_exit)
  qed
qed

lemma while_total_down:
  assumes len: "length pcs = 64" and st: "fst m + snd m * 8 < 0"
  shows "nat (cur + 1) \<le> n \<Longrightarrow> \<exists>b. isPieceBetween_while pcs m cur tgt nb = Some (Inr b)"
proof (induction n arbitrary: cur nb)
  case 0
  then show ?case by (simp add: while_exit)
next
  case (Suc n)
  show ?case
  proof (cases "cur \<noteq> tgt \<and> cur > -1 \<and> cur < 64")
    case True
    then have "nat (cur + (fst m + snd m * 8) + 1) \<le> n" using Suc.prems st by linarith
    from Suc.IH [OF this] True len show ?thesis by (simp add: while_step)
  next
    case False
    then show ?thesis by (simp add: while_exit)
  qed
qed

lemma isPieceBetween_total:
  assumes "length pcs = 64" "fst m + snd m * 8 \<noteq> 0"
  shows "\<exists>b. isPieceBetween pcs m cur tgt = Some (Inr b)"
proof (cases "fst m + snd m * 8 > 0")
  case True
  from while_total_up [OF assms(1) True order_refl] show ?thesis
    by (simp add: isPieceBetween_def)
next
  case False
  with assms(2) have "fst m + snd m * 8 < 0" by simp
  from while_total_down [OF assms(1) this order_refl] show ?thesis
    by (simp add: isPieceBetween_def)
qed

lemma between_coord:
  fixes x i k a :: int
  assumes "0 \<le> x" "x < 8" "0 \<le> x - k * a" "x - k * a < 8" "0 \<le> i" "i \<le> k"
  shows "0 \<le> x - i * a \<and> x - i * a < 8"
proof (cases "0 \<le> a")
  case True
  then have "i * a \<le> k * a" "0 \<le> i * a" using assms by (simp_all add: mult_right_mono)
  with assms show ?thesis by linarith
next
  case False
  then have "k * a \<le> i * a" "i * a \<le> 0" using assms
    by (simp_all add: mult_right_mono_neg mult_nonneg_nonpos)
  with assms show ?thesis by linarith
qed

lemma between_square:
  fixes cur tgt :: int
  assumes c: "0 \<le> cur" "cur < 64" and t: "0 \<le> tgt" "tgt < 64"
    and x: "tgt mod 8 - cur mod 8 = k * a" and y: "tgt div 8 - cur div 8 = k * b"
    and i: "0 \<le> i" "i \<le> k"
  shows "0 \<le> tgt - i * (a + b * 8) \<and> tgt - i * (a + b * 8) < 64"
proof -
  have xt: "0 \<le> tgt mod 8" "tgt mod 8 < 8" by simp_all
  have yt: "0 \<le> tgt div 8" "tgt div 8 < 8" using t by auto
  have xc: "0 \<le> tgt mod 8 - k * a" "tgt mod 8 - k * a < 8"
    using x by (simp_all add: algebra_simps) 
  have yc0: "0 \<le> cur div 8" "cur div 8 < 8" using c by auto
  have yc: "0 \<le> tgt div 8 - k * b" "tgt div 8 - k * b < 8"
    using y yc0 by linarith+
  from between_coord [OF xt xc i] have X: "0 \<le> tgt mod 8 - i * a" "tgt mod 8 - i * a < 8" by simp_all
  from between_coord [OF yt yc i] have Y: "0 \<le> tgt div 8 - i * b" "tgt div 8 - i * b < 8" by simp_all
  define P where "P = tgt div 8 - i * b"
  define Q where "Q = tgt mod 8 - i * a"
  have "tgt - i * (a + b * 8) = 8 * P + Q"
    by (simp add: P_def Q_def algebra_simps)
  moreover have "0 \<le> P" "P < 8" "0 \<le> Q" "Q < 8" using X Y by (simp_all add: P_def Q_def)
  ultimately show ?thesis by simp
qed

lemma target_is_kth:
  fixes cur tgt :: int
  assumes x: "tgt mod 8 - cur mod 8 = k * a" and y: "tgt div 8 - cur div 8 = k * b"
  shows "tgt = cur + k * (a + b * 8)"
proof -
  have "tgt - cur = 8 * (tgt div 8 - cur div 8) + (tgt mod 8 - cur mod 8)"
    by (simp add: algebra_simps)
  with x y show ?thesis by (simp add: algebra_simps)
qed

lemma reindex_between:
  fixes cur tgt st :: int
  assumes "tgt = cur + int k * st"
  shows "(\<forall>i\<in>{1..k - 1}. P (tgt - int i * st)) \<longleftrightarrow> (\<forall>i\<in>{1..<k}. P (cur + int i * st))"
proof
  assume h: "\<forall>i\<in>{1..k - 1}. P (tgt - int i * st)"
  show "\<forall>i\<in>{1..<k}. P (cur + int i * st)"
  proof
    fix i assume i: "i \<in> {1..<k}"
    then have "k - i \<in> {1..k - 1}" by auto
    from bspec [OF h this] have "P (tgt - int (k - i) * st)" .
    moreover have "int (k - i) = int k - int i" using i by auto
    then have "tgt - int (k - i) * st = cur + int i * st"
      using assms by (simp add: algebra_simps)
    ultimately show "P (cur + int i * st)" by simp
  qed
next
  assume h: "\<forall>i\<in>{1..<k}. P (cur + int i * st)"
  show "\<forall>i\<in>{1..k - 1}. P (tgt - int i * st)"
  proof
    fix i assume i: "i \<in> {1..k - 1}"
    then have "k - i \<in> {1..<k}" by auto
    from bspec [OF h this] have "P (cur + int (k - i) * st)" .
    moreover have "int (k - i) = int k - int i" using i by auto
    then have "cur + int (k - i) * st = tgt - int i * st"
      using assms by (simp add: algebra_simps)
    ultimately show "P (tgt - int i * st)" by simp
  qed
qed

lemma isPieceBetween_multiple:
  assumes len: "length pcs = 64" and c: "0 \<le> cur" "cur < 64" and t: "0 \<le> tgt" "tgt < 64"
    and k: "0 < k"
    and x: "tgt mod 8 - cur mod 8 = int k * fst m"
    and y: "tgt div 8 - cur div 8 = int k * snd m"
    and nz: "fst m + snd m * 8 \<noteq> 0"
  shows "isPieceBetween pcs m cur tgt =
         Some (Inr (\<forall>i\<in>{1..<k}. pcs ! nat (cur + int i * (fst m + snd m * 8)) = None))"
proof -
  let ?st = "fst m + snd m * 8"
  have tk: "tgt = cur + int k * ?st" by (rule target_is_kth [OF x y])
  have "int (k - 1) = int k - 1" using k by auto
  then have start: "cur + ?st = tgt - int (k - 1) * ?st"
    using tk by (simp add: algebra_simps)
  have rng: "\<forall>i\<in>{1..k - 1}. 0 \<le> tgt - int i * ?st \<and> tgt - int i * ?st < 64"
  proof
    fix i assume "i \<in> {1..k - 1}"
    then have "0 \<le> int i" "int i \<le> int k" by auto
    from between_square [OF c t x y this] show "0 \<le> tgt - int i * ?st \<and> tgt - int i * ?st < 64" .
  qed
  show ?thesis
    unfolding isPieceBetween_def start while_run [OF len nz rng]
      reindex_between [OF tk, of "\<lambda>s. pcs ! nat s = None"]
    by simp
qed

lemma isPieceBetween_null: "isPieceBetween pcs m cur (cur + (fst m + snd m * 8)) = Some (Inr True)"
  by (simp add: isPieceBetween_def while_exit)

subsection \<open>The loop over the moves\<close>

lemma for_limited:
  assumes "pyGet pcs cur = Inr (Some q)" "limit q = True"
  shows "isVaidMove_for pcs p cur tgt xD yD mvs v =
         Some (Inr (v \<or> (\<exists>m\<in>set mvs. positiveMultiple (limit p) m xD yD)))"
  using assms by (induction mvs arbitrary: v) (auto simp: moveTest_eq)

lemma for_ranged:
  assumes "pyGet pcs cur = Inr (Some q)" "limit q = False"
  shows "isVaidMove_for pcs p cur tgt xD yD mvs False =
         (case find (\<lambda>m. positiveMultiple (limit p) m xD yD) mvs of
            None \<Rightarrow> Some (Inr False)
          | Some m \<Rightarrow> isPieceBetween pcs m cur tgt)"
  using assms by (induction mvs) (auto simp: moveTest_eq)

lemma sameColourRule_eq:
  assumes "length pcs = 64" "0 \<le> tgt" "tgt < 64"
  shows "sameColourRule pcs p tgt v =
         Inr (v \<and> (case pcs ! nat tgt of None \<Rightarrow> True | Some q \<Rightarrow> white q \<noteq> white p))"
  using assms by (auto simp: sameColourRule_def pyGet_inrange split: option.splits)

lemma positiveMultiple_nat:
  assumes "positiveMultiple lm m xD yD"
  shows "\<exists>k>0. xD = int k * fst m \<and> yD = int k * snd m"
proof -
  from assms consider "xD = fst m \<and> yD = snd m" | "\<exists>k>0. xD = k * fst m \<and> yD = k * snd m"
    by (auto simp: positiveMultiple_def)
  then show ?thesis
  proof cases
    case 1
    then have "xD = int 1 * fst m \<and> yD = int 1 * snd m" by simp
    then show ?thesis by (intro exI [of _ "1::nat"]) simp
  next
    case 2
    then obtain k :: int where k: "k > 0" "xD = k * fst m" "yD = k * snd m" by blast
    then have "0 < nat k \<and> xD = int (nat k) * fst m \<and> yD = int (nat k) * snd m" by simp
    then show ?thesis by blast
  qed
qed

lemma isPieceBetween_matched:
  assumes len: "length pcs = 64" and c: "0 \<le> cur" "cur < 64" and t: "0 \<le> tgt" "tgt < 64"
    and pm: "positiveMultiple lm m (tgt mod 8 - cur mod 8) (tgt div 8 - cur div 8)"
  shows "\<exists>b. isPieceBetween pcs m cur tgt = Some (Inr b)"
proof -
  from positiveMultiple_nat [OF pm] obtain k where k: "0 < k"
    "tgt mod 8 - cur mod 8 = int k * fst m" "tgt div 8 - cur div 8 = int k * snd m" by blast
  show ?thesis
  proof (cases "fst m + snd m * 8 = 0")
    case True
    with target_is_kth [OF k(2,3)] have "tgt = cur + (fst m + snd m * 8)" by simp
    with isPieceBetween_null [of pcs m cur] show ?thesis by auto
  next
    case False
    from isPieceBetween_multiple [OF len c t k False] show ?thesis by auto
  qed
qed

lemma isVaidMove_for_returns:
  assumes len: "length pcs = 64" and c: "0 \<le> cur" "cur < 64" and t: "0 \<le> tgt" "tgt < 64"
    and occ: "pcs ! nat cur = Some p"
  shows "\<exists>b. isVaidMove_for pcs p cur tgt (tgt mod 8 - cur mod 8) (tgt div 8 - cur div 8) (moves p) False
            = Some (Inr b)"
proof -
  have g: "pyGet pcs cur = Inr (Some p)" using len c occ by (simp add: pyGet_inrange)
  show ?thesis
  proof (cases "limit p")
    case True
    with for_limited [OF g] show ?thesis by auto
  next
    case False
    let ?f = "find (\<lambda>m. positiveMultiple (limit p) m (tgt mod 8 - cur mod 8) (tgt div 8 - cur div 8)) (moves p)"
    show ?thesis
    proof (cases ?f)
      case None
      with for_ranged [OF g] False show ?thesis by auto
    next
      case (Some m)
      then have "positiveMultiple (limit p) m (tgt mod 8 - cur mod 8) (tgt div 8 - cur div 8)"
        by (auto simp: find_Some_iff)
      from isPieceBetween_matched [OF len c t this] Some for_ranged [OF g] False
      show ?thesis by auto
    qed
  qed
qed

lemma isVaidMove_returns:
  assumes len: "length pcs = 64" and c: "0 \<le> cur" "cur < 64" and t: "0 \<le> tgt" "tgt < 64"
    and occ: "pcs ! nat cur = Some p"
  shows "\<exists>b. isVaidMove pcs p cur tgt = Some (Inr b)"
proof -
  from isVaidMove_for_returns [OF assms] obtain b where
    "isVaidMove_for pcs p cur tgt (tgt mod 8 - cur mod 8) (tgt div 8 - cur div 8) (moves p) False
       = Some (Inr b)" by blast
  then show ?thesis using len t by (simp add: isVaidMove_def sameColourRule_eq)
qed

subsection \<open>Bounds on the operands, and the initial board\<close>

lemma multipleOf_bound:
  assumes "multipleOf d m = Inr True"
  shows "\<bar>m\<bar> \<le> \<bar>d\<bar>"
proof (cases "m = 0")
  case True
  with assms show ?thesis by (simp add: multipleOf_def pyMod_def)
next
  case False
  with assms multipleOf_eq [OF False, of d] obtain k where k: "k > 0" "d = k * m" by auto
  then have "\<bar>d\<bar> = k * \<bar>m\<bar>" by (simp add: abs_mult)
  moreover have "1 * \<bar>m\<bar> \<le> k * \<bar>m\<bar>" using k(1) by (intro mult_right_mono) simp_all
  ultimately show ?thesis by simp
qed

lemma initDemo_length: "length (pieces initDemo) = 64"
  by (simp add: initDemo_def)

lemma initDemo_slot: "i < 64 \<Longrightarrow> pieces initDemo ! i = initSlot i"
  by (simp add: initDemo_def)

subsection \<open>Closed forms of \<^verbatim>\<open>isVaidMove\<close>\<close>

lemma displaced_square:
  fixes s t dx dy :: int
  assumes "0 \<le> s mod 8 + dx" "s mod 8 + dx < 8" "0 \<le> s div 8 + dy" "s div 8 + dy < 8"
    and "t = s + dx + 8 * dy"
  shows "0 \<le> t \<and> t < 64 \<and> t mod 8 - s mod 8 = dx \<and> t div 8 - s div 8 = dy"
proof -
  define X where "X = s mod 8 + dx"
  define Y where "Y = s div 8 + dy"
  have t: "t = Y * 8 + X" using assms(5) by (simp add: X_def Y_def algebra_simps)
  have b: "0 \<le> X" "X < 8" "0 \<le> Y" "Y < 8" using assms by (simp_all add: X_def Y_def)
  have "t mod 8 = X" "t div 8 = Y" using b by (simp_all add: t)
  moreover have "0 \<le> t" "t < 64" using b by (simp_all add: t)
  ultimately show ?thesis by (simp add: X_def Y_def)
qed

lemma emptyBut_length: "length (emptyBut s p) = 64"
  by (simp add: emptyBut_def)

lemma emptyBut_at: "0 \<le> s \<Longrightarrow> s < 64 \<Longrightarrow> emptyBut s p ! nat s = Some p"
  by (simp add: emptyBut_def)

lemma emptyBut_other: "0 \<le> s \<Longrightarrow> 0 \<le> t \<Longrightarrow> t < 64 \<Longrightarrow> t \<noteq> s \<Longrightarrow> emptyBut s p ! nat t = None"
  by (simp add: emptyBut_def)

lemma isVaidMove_limited:
  assumes len: "length pcs = 64" and c: "0 \<le> cur" "cur < 64" and t: "0 \<le> tgt" "tgt < 64"
    and occ: "pcs ! nat cur = Some p" and lm: "limit p"
  shows "isVaidMove pcs p cur tgt =
         Some (Inr ((\<exists>m\<in>set (moves p). tgt mod 8 - cur mod 8 = fst m \<and> tgt div 8 - cur div 8 = snd m)
                    \<and> (case pcs ! nat tgt of None \<Rightarrow> True | Some q \<Rightarrow> white q \<noteq> white p)))"
proof -
  have g: "pyGet pcs cur = Inr (Some p)" using len c occ by (simp add: pyGet_inrange)
  show ?thesis
    using lm len t by (simp add: isVaidMove_def for_limited [OF g] sameColourRule_eq positiveMultiple_def)
qed

lemma isVaidMove_ranged_none:
  assumes len: "length pcs = 64" and c: "0 \<le> cur" "cur < 64" and t: "0 \<le> tgt" "tgt < 64"
    and occ: "pcs ! nat cur = Some p" and lm: "\<not> limit p"
    and f: "find (\<lambda>m. positiveMultiple False m (tgt mod 8 - cur mod 8) (tgt div 8 - cur div 8)) (moves p) = None"
  shows "isVaidMove pcs p cur tgt = Some (Inr False)"
proof -
  have g: "pyGet pcs cur = Inr (Some p)" using len c occ by (simp add: pyGet_inrange)
  show ?thesis
    using lm len t f by (simp add: isVaidMove_def for_ranged [OF g] sameColourRule_eq)
qed

lemma isVaidMove_ranged_some:
  assumes len: "length pcs = 64" and c: "0 \<le> cur" "cur < 64" and t: "0 \<le> tgt" "tgt < 64"
    and occ: "pcs ! nat cur = Some p" and lm: "\<not> limit p"
    and f: "find (\<lambda>m. positiveMultiple False m (tgt mod 8 - cur mod 8) (tgt div 8 - cur div 8)) (moves p) = Some m"
    and b: "isPieceBetween pcs m cur tgt = Some (Inr b)"
  shows "isVaidMove pcs p cur tgt =
         Some (Inr (b \<and> (case pcs ! nat tgt of None \<Rightarrow> True | Some q \<Rightarrow> white q \<noteq> white p)))"
proof -
  have g: "pyGet pcs cur = Inr (Some p)" using len c occ by (simp add: pyGet_inrange)
  show ?thesis
    using lm len t f b by (simp add: isVaidMove_def for_ranged [OF g] sameColourRule_eq)
qed

lemma emptyBut_clear:
  assumes c: "0 \<le> cur" "cur < 64" and t: "0 \<le> tgt" "tgt < 64" and ne: "tgt \<noteq> cur"
    and pm: "positiveMultiple lm m (tgt mod 8 - cur mod 8) (tgt div 8 - cur div 8)"
  shows "isPieceBetween (emptyBut cur p) m cur tgt = Some (Inr True)"
proof -
  let ?st = "fst m + snd m * 8"
  from positiveMultiple_nat [OF pm] obtain k where k: "0 < k"
    "tgt mod 8 - cur mod 8 = int k * fst m" "tgt div 8 - cur div 8 = int k * snd m" by blast
  have tk: "tgt = cur + int k * ?st" by (rule target_is_kth [OF k(2,3)])
  with ne have nz: "?st \<noteq> 0" by auto
  have "\<forall>i\<in>{1..<k}. emptyBut cur p ! nat (cur + int i * ?st) = None"
  proof
    fix i assume i: "i \<in> {1..<k}"
    then have "0 \<le> int (k - i)" "int (k - i) \<le> int k" by auto
    from between_square [OF c t k(2,3) this]
    have "0 \<le> tgt - int (k - i) * ?st \<and> tgt - int (k - i) * ?st < 64" .
    moreover have "int (k - i) = int k - int i" using i by auto
    then have "tgt - int (k - i) * ?st = cur + int i * ?st" using tk by (simp add: algebra_simps)
    ultimately have r: "0 \<le> cur + int i * ?st" "cur + int i * ?st < 64" by simp_all
    have "cur + int i * ?st \<noteq> cur" using i nz by simp
    from emptyBut_other [OF c(1) r this] show "emptyBut cur p ! nat (cur + int i * ?st) = None" .
  qed
  with isPieceBetween_multiple [OF emptyBut_length [of cur p] c t k nz] show ?thesis by simp
qed

lemma isVaidMove_emptyBut:
  assumes c: "0 \<le> cur" "cur < 64" and t: "0 \<le> tgt" "tgt < 64" and ne: "tgt \<noteq> cur"
  shows "isVaidMove (emptyBut cur p) p cur tgt =
         Some (Inr (uniformRule (moves p) (limit p) (tgt mod 8 - cur mod 8) (tgt div 8 - cur div 8)))"
proof -
  let ?xD = "tgt mod 8 - cur mod 8" and ?yD = "tgt div 8 - cur div 8"
  note occ = emptyBut_at [OF c, of p]
  note emp = emptyBut_other [OF c(1) t ne, of p]
  show ?thesis
  proof (cases "limit p")
    case True
    with isVaidMove_limited [OF emptyBut_length c t occ True] emp show ?thesis
      by (simp add: uniformRule_def positiveMultiple_def)
  next
    case False
    show ?thesis
    proof (cases "find (\<lambda>m. positiveMultiple False m ?xD ?yD) (moves p)")
      case None
      then have "\<not> uniformRule (moves p) (limit p) ?xD ?yD"
        using False by (auto simp: uniformRule_def find_None_iff)
      with isVaidMove_ranged_none [OF emptyBut_length c t occ False None] show ?thesis by simp
    next
      case (Some m)
      then have m: "m \<in> set (moves p)" "positiveMultiple False m ?xD ?yD"
        by (auto simp: find_Some_iff)
      then have "uniformRule (moves p) (limit p) ?xD ?yD" using False
        by (auto simp: uniformRule_def)
      with isVaidMove_ranged_some [OF emptyBut_length c t occ False Some emptyBut_clear [OF c t ne m(2)]]
        emp show ?thesis by simp
    qed
  qed
qed

lemma sideMoves_step: "(dx, dy) \<in> set (sideMoves k w) \<Longrightarrow> dx + 8 * dy \<noteq> 0"
  by (cases k) (auto simp: sideMoves_def split: if_splits)

lemma matchingAccepts_iff: "matchingAccepts table lm xD yD \<longleftrightarrow> uniformRule table lm xD yD"
  by (simp add: matchingAccepts_def uniformRule_def list_ex_iff moveTest_eq)

subsection \<open>Ranged pieces with one-step vectors\<close>

lemma unit_coord:
  fixes a d :: int
  assumes "a = -1 \<or> a = 0 \<or> a = 1" "d = -1 \<or> d = 0 \<or> d = 1" "0 < k" "0 < j"
    and "int k * d = int j * a"
  shows "d = a"
  using assms by auto

lemma queen_vector_coords:
  assumes "m \<in> set (classMoves Queen)"
  shows "(fst m = -1 \<or> fst m = 0 \<or> fst m = 1) \<and> (snd m = -1 \<or> snd m = 0 \<or> snd m = 1)
         \<and> fst m + snd m * 8 \<noteq> 0"
  using assms by auto

lemma one_step_match_unique:
  assumes m: "m \<in> set (classMoves Queen)" and v: "(dx, dy) \<in> set (classMoves Queen)"
    and k: "0 < k" and pm: "positiveMultiple lm m (int k * dx) (int k * dy)"
  shows "m = (dx, dy)"
proof -
  from positiveMultiple_nat [OF pm] obtain j where j: "0 < j"
    "int k * dx = int j * fst m" "int k * dy = int j * snd m" by blast
  from queen_vector_coords [OF m] queen_vector_coords [OF v]
  have c: "fst m = -1 \<or> fst m = 0 \<or> fst m = 1" "snd m = -1 \<or> snd m = 0 \<or> snd m = 1"
    "dx = -1 \<or> dx = 0 \<or> dx = 1" "dy = -1 \<or> dy = 0 \<or> dy = 1" by simp_all
  from unit_coord [OF c(1) c(3) k j(1) j(2)] unit_coord [OF c(2) c(4) k j(1) j(3)]
  show ?thesis by (cases m) simp
qed

lemma ranged_blocked:
  assumes len: "length pcs = 64" and s: "0 \<le> s" "s < 64" and t: "0 \<le> t" "t < 64"
    and occ: "pcs ! nat s = Some p" and lm: "limit p = False"
    and tab: "set (moves p) \<subseteq> set (classMoves Queen)"
    and vec: "(dx, dy) \<in> set (moves p)"
    and k: "2 \<le> k" and x: "t mod 8 - s mod 8 = int k * dx" and y: "t div 8 - s div 8 = int k * dy"
    and i: "0 < i" "i < k" and blk: "pcs ! nat (s + int i * (dx + 8 * dy)) \<noteq> None"
  shows "isVaidMove pcs p s t = Some (Inr False)"
proof -
  let ?P = "\<lambda>m. positiveMultiple False m (t mod 8 - s mod 8) (t div 8 - s div 8)"
  have k0: "0 < k" using k by simp
  have "0 < int k \<and> int k * dx = int k * dx \<and> int k * dy = int k * dy" using k0 by simp
  then have "\<exists>j>0. int k * dx = j * dx \<and> int k * dy = j * dy" by (rule exI)
  then have pv: "?P (dx, dy)" by (simp add: positiveMultiple_def x y)
  with vec have "find ?P (moves p) \<noteq> None" by (auto simp: find_None_iff)
  then obtain m where f: "find ?P (moves p) = Some m" by auto
  then have fm: "m \<in> set (moves p)" "?P m" by (auto simp: find_Some_iff)
  from fm(2) have pm': "positiveMultiple False m (int k * dx) (int k * dy)" unfolding x y .
  have "m \<in> set (classMoves Queen)" "(dx, dy) \<in> set (classMoves Queen)"
    using tab fm(1) vec by blast+
  from one_step_match_unique [OF this k0 pm'] have m: "m = (dx, dy)" .
  have nz: "fst (dx, dy) + snd (dx, dy) * 8 \<noteq> 0"
    using queen_vector_coords [of "(dx, dy)"] tab vec by blast
  have x': "t mod 8 - s mod 8 = int k * fst (dx, dy)" and y': "t div 8 - s div 8 = int k * snd (dx, dy)"
    using x y by simp_all
  have "i \<in> {1..<k}" using i by simp
  with blk have "\<not> (\<forall>i\<in>{1..<k}. pcs ! nat (s + int i * (fst (dx, dy) + snd (dx, dy) * 8)) = None)"
    by (auto simp: mult.commute)
  with isPieceBetween_multiple [OF len s t k0 x' y' nz]
  have b: "isPieceBetween pcs m s t = Some (Inr False)" by (simp add: m)
  from isVaidMove_ranged_some [OF len s t occ _ f b] lm show ?thesis by simp
qed

lemma rook_alone_reaches_56:
  "isVaidMove (emptyBut 0 (newPiece Rook 0 WHITE)) (newPiece Rook 0 WHITE) 0 56 = Some (Inr True)"
proof -
  let ?r = "newPiece Rook 0 WHITE"
  have "(0::int) < 7 \<and> (0::int) = 7 * 0 \<and> (7::int) = 7 * 1" by simp
  then have "\<exists>k>0. (0::int) = k * 0 \<and> (7::int) = k * 1" by (rule exI)
  then have "positiveMultiple False (0, 1) 0 7" by (simp add: positiveMultiple_def)
  then have u: "uniformRule (moves ?r) (limit ?r) 0 7"
    by (simp add: uniformRule_def newPiece_def)
  have d: "(56::int) mod 8 - 0 mod 8 = 0" "(56::int) div 8 - 0 div 8 = 7" by simp_all
  have "(0::int) \<le> 0" "(0::int) < 64" "(0::int) \<le> 56" "(56::int) < 64" "(56::int) \<noteq> 0" by simp_all
  from isVaidMove_emptyBut [OF this, of ?r] u show ?thesis unfolding d by simp
qed

lemma rook_blocked_at_24:
  "isVaidMove ((emptyBut 0 (newPiece Rook 0 WHITE))[24 := Some q]) (newPiece Rook 0 WHITE) 0 56
     = Some (Inr False)"
proof -
  let ?r = "newPiece Rook 0 WHITE"
  let ?b = "(emptyBut 0 ?r)[24 := Some q]"
  have len: "length ?b = 64" by (simp add: emptyBut_def)
  have occ: "?b ! nat 0 = Some ?r" by (simp add: emptyBut_def)
  have lm: "limit ?r = False" by (simp add: newPiece_def)
  have tab: "set (moves ?r) \<subseteq> set (classMoves Queen)" by (simp add: newPiece_def)
  have vec: "(0, 1) \<in> set (moves ?r)" by (simp add: newPiece_def)
  have blk: "?b ! nat (0 + int 3 * (0 + 8 * 1)) \<noteq> None" by (simp add: emptyBut_def)
  have r: "(0::int) \<le> 0" "(0::int) < 64" "(0::int) \<le> 56" "(56::int) < 64" by simp_all
  have k: "(2::nat) \<le> 7" "(56::int) mod 8 - 0 mod 8 = int 7 * 0" "(56::int) div 8 - 0 div 8 = int 7 * 1"
    "(0::nat) < 3" "(3::nat) < 7" by simp_all
  from ranged_blocked [OF len r occ lm tab vec k blk] show ?thesis .
qed

lemma tableVectors_step: "m \<in> set tableVectors \<Longrightarrow> fst m + snd m * 8 \<noteq> 0"
  by (auto simp: tableVectors_def)

subsection \<open>Closed forms of \<^verbatim>\<open>swapPieces\<close> and \<^verbatim>\<open>releasePiece\<close>\<close>

lemma swapPieces_distinct:
  assumes len: "length (pieces s) = 64" and fr: "0 \<le> fr" "fr < 64" and to: "0 \<le> to" "to < 64"
    and ne: "fr \<noteq> to"
  shows "swapPieces s fr to =
         Inr ((case pieces s ! nat to of
                 None \<Rightarrow> s
               | Some c \<Rightarrow>
                   (if kind c = King
                    then s\<lparr> title := ''Game over!'', onscreen := ''Game over!'' # onscreen s \<rparr>
                    else s) \<lparr> removed := c # removed s \<rparr>)
              \<lparr> pieces := (pieces s)[nat fr := None,
                     nat to := map_option (\<lambda>p. p\<lparr> square := Some to \<rparr>) (pieces s ! nat fr)] \<rparr>)"
proof -
  have n: "nat fr \<noteq> nat to" "nat fr < 64" "nat to < 64" using fr to ne by auto
  show ?thesis
    using len fr to ne n
    by (cases "pieces s ! nat to"; cases "pieces s ! nat fr")
       (simp_all add: swapPieces_def pyGet_inrange pySet_inrange list_update_swap [of "nat fr" "nat to"])
qed

lemma swapPieces_same:
  assumes len: "length (pieces s) = 64" and fr: "0 \<le> fr" "fr < 64"
  shows "swapPieces s fr fr =
         Inr (s\<lparr> pieces := (pieces s)[nat fr := map_option (\<lambda>p. p\<lparr> square := Some fr \<rparr>) (pieces s ! nat fr)] \<rparr>)"
  using len fr
  by (cases "pieces s ! nat fr") (simp_all add: swapPieces_def pyGet_inrange pySet_inrange)

lemma releasePiece_rejected:
  assumes len: "length (pieces s) = 64" and drag: "dragging s = Some d" and d: "0 \<le> d" "d < 64"
    and occ: "pieces s ! nat d = Some p"
    and rej: "hiSq s = None \<or> (\<exists>h. hiSq s = Some h \<and> isVaidMove (pieces s) p d h = Some (Inr False))"
  shows "releasePiece s = Some (Inr (s\<lparr> dragging := None \<rparr>))"
  using assms by (auto simp: releasePiece_def pyGet_inrange)

lemma releasePiece_accepted:
  assumes len: "length (pieces s) = 64" and drag: "dragging s = Some d" and d: "0 \<le> d" "d < 64"
    and occ: "pieces s ! nat d = Some p"
    and hov: "hiSq s = Some h" and h: "0 \<le> h" "h < 64"
    and acc: "isVaidMove (pieces s) p d h = Some (Inr True)"
  shows "releasePiece s =
         Some (bindE (swapPieces (s\<lparr> pieces := (pieces s)[nat d := Some (p\<lparr> is_first_move := False \<rparr>)] \<rparr>) d h)
                 (\<lambda>s'. Inr (s'\<lparr> dragging := None \<rparr>)))"
  using assms by (simp add: releasePiece_def pyGet_inrange pySet_inrange)

lemma swapPieces_returns:
  assumes len: "length (pieces s) = 64" and fr: "0 \<le> fr" "fr < 64" and to: "0 \<le> to" "to < 64"
  shows "\<exists>s'. swapPieces s fr to = Inr s'"
proof (cases "fr = to")
  case True
  with swapPieces_same [OF len fr] show ?thesis by simp
next
  case False
  with swapPieces_distinct [OF len fr to] show ?thesis by simp
qed

section \<open>Properties of the legality engine\<close>

text \<open>
  C1. For every piece (its move table and its \<^verbatim>\<open>limit\<close> flag) and every displacement
  between two squares of the board, the vector-matching phase of \<^verbatim>\<open>isVaidMove\<close> accepts
  the displacement if and only if the uniform rule holds: some vector of the table equals
  the displacement, or the piece is ranged and the displacement is a positive integer
  multiple of the vector. The order of the tests (column first, row as fallback) changes
  nothing. On a board that holds the piece alone, \<^verbatim>\<open>isVaidMove\<close> towards any other
  square returns exactly the value of the uniform rule.
\<close>

theorem matching_phase_is_uniform_rule:
  assumes "0 \<le> cur" "cur < 64" "0 \<le> tgt" "tgt < 64"
  shows "(matchingAccepts (moves p) (limit p) (tgt mod 8 - cur mod 8) (tgt div 8 - cur div 8)
            \<longleftrightarrow> uniformRule (moves p) (limit p) (tgt mod 8 - cur mod 8) (tgt div 8 - cur div 8))
         \<and> (tgt \<noteq> cur \<longrightarrow>
              isVaidMove (emptyBut cur p) p cur tgt =
              Some (Inr (uniformRule (moves p) (limit p) (tgt mod 8 - cur mod 8) (tgt div 8 - cur div 8))))"
  using isVaidMove_emptyBut [OF assms] by (simp add: matchingAccepts_iff)

theorem matching_phase_is_uniform_rule_witness:
  "matchingAccepts (moves (newPiece Rook 0 WHITE)) (limit (newPiece Rook 0 WHITE)) 0 7 \<and>
   uniformRule (moves (newPiece Rook 0 WHITE)) (limit (newPiece Rook 0 WHITE)) 0 7 \<and>
   isVaidMove (emptyBut 0 (newPiece Rook 0 WHITE)) (newPiece Rook 0 WHITE) 0 56 = Some (Inr True)"
proof -
  let ?r = "newPiece Rook 0 WHITE"
  have "(0::int) < 7 \<and> (0::int) = 7 * 0 \<and> (7::int) = 7 * 1" by simp
  then have "\<exists>k>0. (0::int) = k * 0 \<and> (7::int) = k * 1" by (rule exI)
  then have "positiveMultiple False (0, 1) 0 7" by (simp add: positiveMultiple_def)
  then have u: "uniformRule (moves ?r) (limit ?r) 0 7"
    by (simp add: uniformRule_def newPiece_def)
  have d: "(56::int) mod 8 - 0 mod 8 = 0" "(56::int) div 8 - 0 div 8 = 7" by simp_all
  have "(0::int) \<le> 0" "(0::int) < 64" "(0::int) \<le> 56" "(56::int) < 64" by simp_all
  from matching_phase_is_uniform_rule [OF this, of ?r] u show ?thesis
    unfolding d by simp
qed

text \<open>
  C2. For every piece kind (a pawn with the move table of its side), every vector
  \<open>(dx, dy)\<close> of its table and every square \<open>s\<close> such that the square \<open>t\<close> displaced from
  \<open>s\<close> by exactly \<open>(dx, dy)\<close> is on the board: on the board where the piece stands on
  \<open>s\<close> and every other square is empty, \<^verbatim>\<open>isVaidMove(piece, s, t)\<close> returns \<^verbatim>\<open>True\<close>.
\<close>

theorem exact_vector_move_valid:
  assumes tab: "moves p = sideMoves (kind p) (white p)"
    and vec: "(dx, dy) \<in> set (moves p)"
    and s: "0 \<le> s" "s < 64"
    and on: "0 \<le> s mod 8 + dx" "s mod 8 + dx < 8" "0 \<le> s div 8 + dy" "s div 8 + dy < 8"
    and t: "t = s + dx + 8 * dy"
  shows "isVaidMove (emptyBut s p) p s t = Some (Inr True)"
proof -
  from displaced_square [OF on t]
  have r: "0 \<le> t" "t < 64" and d: "t mod 8 - s mod 8 = dx" "t div 8 - s div 8 = dy" by simp_all
  from vec tab have "dx + 8 * dy \<noteq> 0" by (auto dest: sideMoves_step)
  with t have ne: "t \<noteq> s" by simp
  have "positiveMultiple (limit p) (dx, dy) dx dy" by (simp add: positiveMultiple_def)
  with vec have "uniformRule (moves p) (limit p) dx dy" by (auto simp: uniformRule_def)
  with isVaidMove_emptyBut [OF s r ne, of p] show ?thesis by (simp add: d)
qed

theorem exact_vector_move_valid_witness:
  "isVaidMove (emptyBut 1 (newPiece Knight 1 WHITE)) (newPiece Knight 1 WHITE) 1 18 = Some (Inr True)"
proof -
  let ?n = "newPiece Knight 1 WHITE"
  have tab: "moves ?n = sideMoves (kind ?n) (white ?n)" by (simp add: newPiece_def sideMoves_def)
  have vec: "(1, 2) \<in> set (moves ?n)" by (simp add: newPiece_def)
  have "(0::int) \<le> 1" "(1::int) < 64" "(0::int) \<le> 1 mod 8 + 1" "(1::int) mod 8 + 1 < 8"
    "(0::int) \<le> 1 div 8 + 2" "(1::int) div 8 + 2 < 8" "(18::int) = 1 + 1 + 8 * 2" by simp_all
  from exact_vector_move_valid [OF tab vec this] show ?thesis .
qed

text \<open>
  C3. For every ranged piece (\<^verbatim>\<open>limit\<close> is \<^verbatim>\<open>False\<close>; its table holds one-step vectors, as
  the tables of \<^verbatim>\<open>Bishop\<close>, \<^verbatim>\<open>Rook\<close> and \<^verbatim>\<open>Queen\<close> do) on square \<open>s\<close> and every target \<open>t\<close>
  whose displacement is \<open>k \<ge> 2\<close> times one of its vectors: if a square strictly between
  \<open>s\<close> and \<open>t\<close> along that vector is occupied, \<^verbatim>\<open>isVaidMove\<close> returns \<^verbatim>\<open>False\<close>, although the
  end point matches. In particular a rook alone on square 0 may move to square 56, and any
  piece put on square 24 makes that move invalid.
\<close>

theorem ranged_path_obstruction:
  "(\<forall>pcs p s t dx dy k i.
      length pcs = 64 \<and> 0 \<le> s \<and> s < 64 \<and> 0 \<le> t \<and> t < 64 \<and> pcs ! nat s = Some p \<and>
      limit p = False \<and> set (moves p) \<subseteq> set (classMoves Queen) \<and> (dx, dy) \<in> set (moves p) \<and>
      2 \<le> k \<and> t mod 8 - s mod 8 = int k * dx \<and> t div 8 - s div 8 = int k * dy \<and>
      0 < i \<and> i < k \<and> pcs ! nat (s + int i * (dx + 8 * dy)) \<noteq> None
      \<longrightarrow> isVaidMove pcs p s t = Some (Inr False))
   \<and> isVaidMove (emptyBut 0 (newPiece Rook 0 WHITE)) (newPiece Rook 0 WHITE) 0 56 = Some (Inr True)
   \<and> (\<forall>q. isVaidMove ((emptyBut 0 (newPiece Rook 0 WHITE))[24 := Some q]) (newPiece Rook 0 WHITE) 0 56
            = Some (Inr False))"
proof (intro conjI allI impI)
  fix pcs :: "piece option list" and p :: piece and s t dx dy :: int and k i :: nat
  assume h: "length pcs = 64 \<and> 0 \<le> s \<and> s < 64 \<and> 0 \<le> t \<and> t < 64 \<and> pcs ! nat s = Some p \<and>
      limit p = False \<and> set (moves p) \<subseteq> set (classMoves Queen) \<and> (dx, dy) \<in> set (moves p) \<and>
      2 \<le> k \<and> t mod 8 - s mod 8 = int k * dx \<and> t div 8 - s div 8 = int k * dy \<and>
      0 < i \<and> i < k \<and> pcs ! nat (s + int i * (dx + 8 * dy)) \<noteq> None"
  then show "isVaidMove pcs p s t = Some (Inr False)"
    by (intro ranged_blocked [of pcs s t p dx dy k i]) blast+
next
  show "isVaidMove (emptyBut 0 (newPiece Rook 0 WHITE)) (newPiece Rook 0 WHITE) 0 56 = Some (Inr True)"
    by (rule rook_alone_reaches_56)
next
  fix q
  show "isVaidMove ((emptyBut 0 (newPiece Rook 0 WHITE))[24 := Some q]) (newPiece Rook 0 WHITE) 0 56
            = Some (Inr False)"
    by (rule rook_blocked_at_24)
qed

theorem ranged_path_obstruction_witness:
  "pieces initDemo ! nat 3 = Some (newPiece Queen 3 WHITE) \<and>
   pieces initDemo ! nat (3 + int 1 * (0 + 8 * 1)) = Some (newPiece Pawn 11 WHITE) \<and>
   isVaidMove (pieces initDemo) (newPiece Queen 3 WHITE) 3 19 = Some (Inr False)"
proof -
  let ?q = "newPiece Queen 3 WHITE"
  have occ: "pieces initDemo ! nat 3 = Some ?q"
    by (simp add: initDemo_slot initSlot_def pieceOrder_def)
  have pw: "pieces initDemo ! nat (3 + int 1 * (0 + 8 * 1)) = Some (newPiece Pawn 11 WHITE)"
    by (simp add: initDemo_slot initSlot_def)
  have h: "length (pieces initDemo) = 64 \<and> (0::int) \<le> 3 \<and> (3::int) < 64 \<and> (0::int) \<le> 19 \<and> (19::int) < 64 \<and>
      pieces initDemo ! nat 3 = Some ?q \<and>
      limit ?q = False \<and> set (moves ?q) \<subseteq> set (classMoves Queen) \<and> (0, 1) \<in> set (moves ?q) \<and>
      (2::nat) \<le> 2 \<and> (19::int) mod 8 - 3 mod 8 = int 2 * 0 \<and> (19::int) div 8 - 3 div 8 = int 2 * 1 \<and>
      (0::nat) < 1 \<and> (1::nat) < 2 \<and> pieces initDemo ! nat (3 + int 1 * (0 + 8 * 1)) \<noteq> None"
    using occ pw by (simp add: initDemo_length newPiece_def)
  from ranged_path_obstruction [THEN conjunct1, rule_format, OF h] occ pw show ?thesis by simp
qed

text \<open>
  C4. For every piece \<open>p\<close> on square \<open>s\<close> and every square \<open>t\<close> occupied by a piece of the
  same side (equal \<^verbatim>\<open>white\<close> flag), \<^verbatim>\<open>isVaidMove(p, s, t)\<close> returns \<^verbatim>\<open>False\<close>, whatever the
  move table of \<open>p\<close>, whether or not a vector matched, and whatever stands in between.
\<close>

theorem same_side_target_invalid:
  assumes "length pcs = 64" "0 \<le> s" "s < 64" "0 \<le> t" "t < 64"
    and "pcs ! nat s = Some p" "pcs ! nat t = Some q" "white q = white p"
  shows "isVaidMove pcs p s t = Some (Inr False)"
proof -
  from isVaidMove_for_returns [OF assms(1-6)] obtain b where
    "isVaidMove_for pcs p s t (t mod 8 - s mod 8) (t div 8 - s div 8) (moves p) False = Some (Inr b)"
    by blast
  then show ?thesis using assms by (simp add: isVaidMove_def sameColourRule_eq)
qed

theorem same_side_target_invalid_witness:
  "length (pieces initDemo) = 64 \<and> pieces initDemo ! nat 0 = Some (newPiece Rook 0 WHITE) \<and>
   pieces initDemo ! nat 8 = Some (newPiece Pawn 8 WHITE) \<and>
   white (newPiece Pawn 8 WHITE) = white (newPiece Rook 0 WHITE) \<and>
   isVaidMove (pieces initDemo) (newPiece Rook 0 WHITE) 0 8 = Some (Inr False)"
proof -
  have a: "pieces initDemo ! nat 0 = Some (newPiece Rook 0 WHITE)"
    by (simp add: initDemo_slot initSlot_def pieceOrder_def)
  have b: "pieces initDemo ! nat 8 = Some (newPiece Pawn 8 WHITE)"
    by (simp add: initDemo_slot initSlot_def)
  have c: "white (newPiece Pawn 8 WHITE) = white (newPiece Rook 0 WHITE)"
    by (simp add: newPiece_def)
  from same_side_target_invalid [OF initDemo_length _ _ _ _ a b c] a b c initDemo_length
  show ?thesis by simp
qed

text \<open>
  C9. Under the structural-validity precondition (\<^verbatim>\<open>currentPos\<close> and \<^verbatim>\<open>targetPos\<close> in
  \<open>[0, 64)\<close>, the piece is the occupant of \<^verbatim>\<open>currentPos\<close>, every move vector comes from the
  six class tables) \<^verbatim>\<open>isVaidMove\<close> returns a boolean: it terminates and raises nothing, no
  division by zero and no index out of range. For every table vector the linear step
  \<open>dx + 8 * dy\<close> is nonzero, \<^verbatim>\<open>isPieceBetween\<close> terminates and returns a boolean, and the
  cascade of divisions returns a boolean whatever \<^verbatim>\<open>valid_move\<close> was.
\<close>

theorem legality_engine_total:
  assumes len: "length pcs = 64" and c: "0 \<le> currentPos" "currentPos < 64"
    and t: "0 \<le> targetPos" "targetPos < 64"
    and occ: "pcs ! nat currentPos = Some p"
    and tab: "set (moves p) \<subseteq> set tableVectors"
  shows "(\<exists>b. isVaidMove pcs p currentPos targetPos = Some (Inr b))
       \<and> (\<forall>move\<in>set tableVectors.
            fst move + snd move * 8 \<noteq> 0
            \<and> (\<exists>b. isPieceBetween pcs move currentPos targetPos = Some (Inr b))
            \<and> (\<forall>v. \<exists>b. moveTest (limit p) (targetPos mod 8 - currentPos mod 8)
                           (targetPos div 8 - currentPos div 8) move v = Inr b))"
proof (intro conjI ballI allI)
  show "\<exists>b. isVaidMove pcs p currentPos targetPos = Some (Inr b)"
    by (rule isVaidMove_returns [OF len c t occ])
next
  fix move assume m: "move \<in> set tableVectors"
  then show nz: "fst move + snd move * 8 \<noteq> 0" by (rule tableVectors_step)
  from isPieceBetween_total [OF len nz]
  show "\<exists>b. isPieceBetween pcs move currentPos targetPos = Some (Inr b)" .
  fix v
  show "\<exists>b. moveTest (limit p) (targetPos mod 8 - currentPos mod 8)
              (targetPos div 8 - currentPos div 8) move v = Inr b"
    by (simp add: moveTest_eq)
qed

theorem legality_engine_total_witness:
  "(\<exists>b. isVaidMove (pieces initDemo) (newPiece Queen 3 WHITE) 3 19 = Some (Inr b)) \<and>
   (\<exists>b. isPieceBetween (pieces initDemo) (-1, 2) 3 19 = Some (Inr b))"
proof -
  let ?q = "newPiece Queen 3 WHITE"
  have occ: "pieces initDemo ! nat 3 = Some ?q"
    by (simp add: initDemo_slot initSlot_def pieceOrder_def)
  have tab: "set (moves ?q) \<subseteq> set tableVectors" by (simp add: newPiece_def tableVectors_def)
  have r: "(0::int) \<le> 3" "(3::int) < 64" "(0::int) \<le> 19" "(19::int) < 64" by simp_all
  have m: "(-1, 2) \<in> set tableVectors" by (simp add: tableVectors_def)
  from legality_engine_total [OF initDemo_length r occ tab] m show ?thesis by blast
qed

text \<open>
  C10. A pawn's diagonal moves are not restricted to captures: for every pawn on \<open>s\<close>
  whose diagonal vector (\<open>(1, 1)\<close> or \<open>(-1, 1)\<close> for white, \<open>(1, -1)\<close> or \<open>(-1, -1)\<close> for
  black) reaches an empty square \<open>t\<close> of the board, \<^verbatim>\<open>isVaidMove(pawn, s, t)\<close> returns
  \<^verbatim>\<open>True\<close>, whatever else is on the board.
\<close>

theorem pawn_diagonal_to_empty_square:
  assumes len: "length pcs = 64" and s: "0 \<le> s" "s < 64" and occ: "pcs ! nat s = Some p"
    and pawn: "kind p = Pawn" "limit p = classLimit (kind p)" "moves p = sideMoves (kind p) (white p)"
    and dx: "dx = 1 \<or> dx = -1" and dy: "dy = (if white p then 1 else -1)"
    and on: "0 \<le> s mod 8 + dx" "s mod 8 + dx < 8" "0 \<le> s div 8 + dy" "s div 8 + dy < 8"
    and t: "t = s + dx + 8 * dy" and emp: "pcs ! nat t = None"
  shows "isVaidMove pcs p s t = Some (Inr True)"
proof -
  from displaced_square [OF on t]
  have r: "0 \<le> t" "t < 64" and d: "t mod 8 - s mod 8 = dx" "t div 8 - s div 8 = dy" by simp_all
  have lm: "limit p" using pawn by simp
  have "(dx, dy) \<in> set (moves p)" using pawn dx dy by (auto simp: sideMoves_def)
  then have "\<exists>m\<in>set (moves p). dx = fst m \<and> dy = snd m" by force
  with isVaidMove_limited [OF len s r occ lm] emp show ?thesis by (simp add: d)
qed

theorem pawn_diagonal_to_empty_square_witness:
  "isVaidMove (pieces initDemo) (newPiece Pawn 8 WHITE) 8 17 = Some (Inr True) \<and>
   pieces initDemo ! nat 17 = None"
proof -
  let ?p = "newPiece Pawn 8 WHITE"
  have occ: "pieces initDemo ! nat 8 = Some ?p" by (simp add: initDemo_slot initSlot_def)
  have emp: "pieces initDemo ! nat 17 = None" by (simp add: initDemo_slot initSlot_def)
  have pawn: "kind ?p = Pawn" "limit ?p = classLimit (kind ?p)" "moves ?p = sideMoves (kind ?p) (white ?p)"
    by (simp_all add: newPiece_def sideMoves_def)
  have dx: "(1::int) = 1 \<or> (1::int) = -1" by simp
  have dy: "(1::int) = (if white ?p then 1 else -1)" by (simp add: newPiece_def)
  have on: "(0::int) \<le> 8 mod 8 + 1" "(8::int) mod 8 + 1 < 8" "(0::int) \<le> 8 div 8 + 1" "(8::int) div 8 + 1 < 8"
    by simp_all
  have t: "(17::int) = 8 + 1 + 8 * 1" by simp
  have s: "(0::int) \<le> 8" "(8::int) < 64" by simp_all
  from pawn_diagonal_to_empty_square [OF initDemo_length s occ pawn dx dy on t emp] emp
  show ?thesis by simp
qed

section \<open>Properties of the move executor and the release transition\<close>

text \<open>
  C5. For every board and every pair of squares \<open>fr \<noteq> to\<close> with \<open>fr\<close> occupied, after
  \<^verbatim>\<open>swapPieces(fr, to)\<close>: slot \<open>fr\<close> holds \<^verbatim>\<open>None\<close>, the piece that stood on \<open>fr\<close> is in slot
  \<open>to\<close> with its attribute \<^verbatim>\<open>square\<close> equal to \<open>to\<close>, the piece (if any) that stood on \<open>to\<close>
  is off the board and \<^verbatim>\<open>remove()\<close> was called on it, and no other slot changes.
\<close>

theorem swapPieces_moves_and_captures:
  assumes len: "length (pieces s) = 64" and fr: "0 \<le> fr" "fr < 64" and to: "0 \<le> to" "to < 64"
    and ne: "fr \<noteq> to" and occ: "pieces s ! nat fr = Some p"
  shows "\<exists>s'. swapPieces s fr to = Inr s'
            \<and> length (pieces s') = 64
            \<and> pieces s' ! nat fr = None
            \<and> pieces s' ! nat to = Some (p\<lparr> square := Some to \<rparr>)
            \<and> (\<forall>j<64. j \<noteq> nat fr \<and> j \<noteq> nat to \<longrightarrow> pieces s' ! j = pieces s ! j)
            \<and> removed s' = (case pieces s ! nat to of None \<Rightarrow> removed s | Some c \<Rightarrow> c # removed s)"
proof -
  have n: "nat fr \<noteq> nat to" "nat fr < 64" "nat to < 64" using fr to ne by auto
  show ?thesis
    unfolding swapPieces_distinct [OF len fr to ne]
    using len n occ by (cases "pieces s ! nat to") simp_all
qed

theorem swapPieces_moves_and_captures_witness:
  "swapPieces initDemo 8 48 =
     Inr (initDemo\<lparr> pieces := (pieces initDemo)[8 := None, 48 := Some ((newPiece Pawn 8 WHITE)\<lparr> square := Some 48 \<rparr>)],
                    removed := [(newPiece Pawn 48 PIECEBLACK)\<lparr> moves := [(0,-1),(1,-1),(-1,-1)] \<rparr>] \<rparr>)"
proof -
  have occ: "pieces initDemo ! nat 8 = Some (newPiece Pawn 8 WHITE)"
    by (simp add: initDemo_slot initSlot_def)
  have r: "(0::int) \<le> 8" "(8::int) < 64" "(0::int) \<le> 48" "(48::int) < 64" "(8::int) \<noteq> 48" by simp_all
  from swapPieces_moves_and_captures [OF initDemo_length r occ]
  obtain s' where s': "swapPieces initDemo 8 48 = Inr s'" by blast
  moreover have "pieces initDemo ! nat 48 = Some ((newPiece Pawn 48 PIECEBLACK)\<lparr> moves := [(0,-1),(1,-1),(-1,-1)] \<rparr>)"
    by (simp add: initDemo_slot initSlot_def)
  ultimately show ?thesis
    using swapPieces_distinct [OF initDemo_length r] occ
    by (simp add: newPiece_def initDemo_def)
qed

text \<open>
  C6. \<^verbatim>\<open>swapPieces(fr, to)\<close> signals "Game over!" if and only if \<open>fr \<noteq> to\<close> and the piece
  that stood on \<open>to\<close> is a king: exactly one text is created then, none when another piece
  is captured or the target is empty.
\<close>

theorem swapPieces_game_over_signal:
  assumes len: "length (pieces s) = 64" and fr: "0 \<le> fr" "fr < 64" and to: "0 \<le> to" "to < 64"
  shows "\<exists>s'. swapPieces s fr to = Inr s'
            \<and> onscreen s' =
                (if fr \<noteq> to \<and> (\<exists>c. pieces s ! nat to = Some c \<and> kind c = King)
                 then ''Game over!'' # onscreen s else onscreen s)
            \<and> (title s' = ''Game over!'' \<longleftrightarrow>
                 title s = ''Game over!'' \<or> (fr \<noteq> to \<and> (\<exists>c. pieces s ! nat to = Some c \<and> kind c = King)))"
proof (cases "fr = to")
  case True
  with swapPieces_same [OF len fr] show ?thesis by simp
next
  case False
  show ?thesis
    unfolding swapPieces_distinct [OF len fr to False]
    using False by (cases "pieces s ! nat to") simp_all
qed

theorem swapPieces_game_over_signal_witness:
  "(\<exists>s'. swapPieces initDemo 3 60 = Inr s' \<and> onscreen s' = [''Game over!''] \<and> title s' = ''Game over!'')
   \<and> (\<exists>s'. swapPieces initDemo 3 59 = Inr s' \<and> onscreen s' = [] \<and> title s' = ''Panda3D: Chess'')"
proof -
  have k: "pieces initDemo ! nat 60 = Some (newPiece King 60 PIECEBLACK)"
    by (simp add: initDemo_slot initSlot_def pieceOrder_def)
  have q: "pieces initDemo ! nat 59 = Some (newPiece Queen 59 PIECEBLACK)"
    by (simp add: initDemo_slot initSlot_def pieceOrder_def)
  have r: "(0::int) \<le> 3" "(3::int) < 64" "(0::int) \<le> 60" "(60::int) < 64" "(0::int) \<le> 59" "(59::int) < 64"
    by simp_all
  have t0: "title initDemo = ''Panda3D: Chess''" "onscreen initDemo = []" by (simp_all add: initDemo_def)
  from swapPieces_game_over_signal [OF initDemo_length r(1,2) r(3,4)] k t0
  have a: "\<exists>s'. swapPieces initDemo 3 60 = Inr s' \<and> onscreen s' = [''Game over!''] \<and> title s' = ''Game over!''"
    by (simp add: newPiece_def)
  from swapPieces_distinct [OF initDemo_length r(1,2) r(5,6)] q t0
  have b: "\<exists>s'. swapPieces initDemo 3 59 = Inr s' \<and> onscreen s' = [] \<and> title s' = ''Panda3D: Chess''"
    by (simp add: newPiece_def)
  from a b show ?thesis by blast
qed

text \<open>
  C7. In every state where a drag from square \<open>d\<close> is active, \<^verbatim>\<open>releasePiece\<close> returns with
  \<^verbatim>\<open>dragging\<close> reset to \<^verbatim>\<open>False\<close>; and if no square is hovered or \<^verbatim>\<open>isVaidMove\<close> is
  \<^verbatim>\<open>False\<close> for the hovered square, every slot of the board and every attribute of every
  piece is as before the release.
\<close>

theorem releasePiece_rejected_keeps_board:
  assumes len: "length (pieces s) = 64" and drag: "dragging s = Some d" and d: "0 \<le> d" "d < 64"
    and occ: "pieces s ! nat d = Some p"
    and hov: "hiSq s = None \<or> (\<exists>h. hiSq s = Some h \<and> 0 \<le> h \<and> h < 64)"
  shows "\<exists>s'. releasePiece s = Some (Inr s') \<and> dragging s' = None
            \<and> ((hiSq s = None \<or> (\<exists>h. hiSq s = Some h \<and> isVaidMove (pieces s) p d h = Some (Inr False)))
                 \<longrightarrow> s' = s\<lparr> dragging := None \<rparr> \<and> pieces s' = pieces s)"
proof (cases "hiSq s = None \<or> (\<exists>h. hiSq s = Some h \<and> isVaidMove (pieces s) p d h = Some (Inr False))")
  case True
  from releasePiece_rejected [OF len drag d occ True] show ?thesis by simp
next
  case False
  with hov obtain h where h: "hiSq s = Some h" "0 \<le> h" "h < 64" by auto
  from isVaidMove_returns [OF len d h(2,3) occ] False h(1)
  have acc: "isVaidMove (pieces s) p d h = Some (Inr True)" by auto
  let ?s1 = "s\<lparr> pieces := (pieces s)[nat d := Some (p\<lparr> is_first_move := False \<rparr>)] \<rparr>"
  have "length (pieces ?s1) = 64" using len by simp
  from swapPieces_returns [OF this d h(2,3)] obtain s2 where "swapPieces ?s1 d h = Inr s2" by blast
  with releasePiece_accepted [OF len drag d occ h acc] False show ?thesis by auto
qed

theorem releasePiece_rejected_keeps_board_witness:
  "releasePiece (initDemo\<lparr> hiSq := Some 0, dragging := Some 8 \<rparr>)
     = Some (Inr (initDemo\<lparr> hiSq := Some 0, dragging := None \<rparr>))"
proof -
  let ?s = "initDemo\<lparr> hiSq := Some 0, dragging := Some 8 \<rparr>"
  let ?p = "newPiece Pawn 8 WHITE"
  have len: "length (pieces ?s) = 64" by (simp add: initDemo_length)
  have occ: "pieces ?s ! nat 8 = Some ?p" by (simp add: initDemo_slot initSlot_def)
  have tgt: "pieces ?s ! nat 0 = Some (newPiece Rook 0 WHITE)"
    by (simp add: initDemo_slot initSlot_def pieceOrder_def)
  have r: "(0::int) \<le> 8" "(8::int) < 64" "(0::int) \<le> 0" "(0::int) < 64" by simp_all
  have lm: "limit ?p" by (simp add: newPiece_def)
  from isVaidMove_limited [OF len r occ lm] tgt
  have rej: "isVaidMove (pieces ?s) ?p 8 0 = Some (Inr False)" by (simp add: newPiece_def)
  have drag: "dragging ?s = Some 8" by simp
  have hov: "hiSq ?s = None \<or> (\<exists>h. hiSq ?s = Some h \<and> 0 \<le> h \<and> h < 64)" by simp
  from releasePiece_rejected_keeps_board [OF len drag r(1,2) occ hov] rej
  show ?thesis by auto
qed

text \<open>
  C8. The flag \<^verbatim>\<open>is_first_move\<close> is \<^verbatim>\<open>False\<close> at construction. The release that applies a
  piece's first move assigns \<^verbatim>\<open>False\<close> again: on the initial board, dragging the white pawn
  from square 8 and releasing it over square 16 moves the pawn, and its flag is still
  \<^verbatim>\<open>False\<close>.
\<close>

theorem is_first_move_stays_False:
  "is_first_move (newPiece Pawn 8 WHITE) = False \<and>
   releasePiece (initDemo\<lparr> hiSq := Some 16, dragging := Some 8 \<rparr>)
     = Some (Inr (initDemo\<lparr> pieces := (pieces initDemo)[8 := None,
                     16 := Some ((newPiece Pawn 8 WHITE)\<lparr> square := Some 16, is_first_move := False \<rparr>)],
                   hiSq := Some 16, dragging := None \<rparr>))"
proof -
  let ?s = "initDemo\<lparr> hiSq := Some 16, dragging := Some 8 \<rparr>"
  let ?p = "newPiece Pawn 8 WHITE"
  have len: "length (pieces ?s) = 64" by (simp add: initDemo_length)
  have occ: "pieces ?s ! nat 8 = Some ?p" by (simp add: initDemo_slot initSlot_def)
  have tgt: "pieces ?s ! nat 16 = None" by (simp add: initDemo_slot initSlot_def)
  have r: "(0::int) \<le> 8" "(8::int) < 64" "(0::int) \<le> 16" "(16::int) < 64" by simp_all
  have lm: "limit ?p" by (simp add: newPiece_def)
  from isVaidMove_limited [OF len r occ lm] tgt
  have acc: "isVaidMove (pieces ?s) ?p 8 16 = Some (Inr True)" by (simp add: newPiece_def)
  let ?s1 = "?s\<lparr> pieces := (pieces ?s)[nat 8 := Some (?p\<lparr> is_first_move := False \<rparr>)] \<rparr>"
  have len1: "length (pieces ?s1) = 64" using len by simp
  have ne: "(8::int) \<noteq> 16" by simp
  have e: "pieces ?s1 ! nat 16 = None" "pieces ?s1 ! nat 8 = Some (?p\<lparr> is_first_move := False \<rparr>)"
    using tgt len by simp_all
  have "releasePiece ?s = Some (bindE (swapPieces ?s1 8 16) (\<lambda>s'. Inr (s'\<lparr> dragging := None \<rparr>)))"
    by (rule releasePiece_accepted [OF len _ r(1,2) occ _ r(3,4) acc]) simp_all
  also have "swapPieces ?s1 8 16 =
      Inr (?s1\<lparr> pieces := (pieces ?s1)[nat 8 := None, nat 16 := Some (?p\<lparr> is_first_move := False, square := Some 16 \<rparr>)] \<rparr>)"
    unfolding swapPieces_distinct [OF len1 r ne] e by simp
  finally show ?thesis by (simp add: newPiece_def)
qed

end
